theory Spec2Isabelle
  imports Complex_Main
begin

section \<open>Python values used by the classifier\<close>

text \<open>
  The classifier of \<^verbatim>\<open>src/yayoi_classifier/classifier.py\<close> works on Python
  \<^verbatim>\<open>str\<close>, \<^verbatim>\<open>dict\<close>, \<^verbatim>\<open>list\<close> and \<^verbatim>\<open>float\<close> values.

  \<^item> A text (memo, keyword, exact-lookup key) is a list of code points \<open>'c list\<close>:
    \<^verbatim>\<open>len\<close> is \<open>length\<close>. The Unicode tables behind \<^verbatim>\<open>str.lower\<close> and
    the whitespace class of \<^verbatim>\<open>str.strip\<close> belong to the Python runtime, not to the
    repository, so they are the parameters \<open>lower\<close> and \<open>isspace\<close> of the model.
  \<^item> A subject code is a \<open>string\<close>; the source never lowercases, strips or
    searches a subject code, it only stores and returns it.
  \<^item> A \<^verbatim>\<open>dict\<close> is an association list in insertion order.
  \<^item> A \<^verbatim>\<open>float\<close> is a \<open>real\<close>: scores and confidences are computed in exact
    arithmetic, without the rounding of IEEE doubles. The literals \<^verbatim>\<open>0.0\<close> and
    \<^verbatim>\<open>1.0\<close> are written \<open>0\<close> and \<open>1\<close>.
  \<^item> An exception is a value of \<open>error\<close>, returned as \<open>Inl\<close>.
\<close>

datatype error = ValueError string | KeyError

subsection \<open>dict\<close>

text \<open>\<^verbatim>\<open>d[k] = v\<close>: an existing key keeps its position and gets the new value, a new
  key is appended.\<close>

fun dict_set :: "('k \<times> 'v) list \<Rightarrow> 'k \<Rightarrow> 'v \<Rightarrow> ('k \<times> 'v) list" where
  "dict_set [] k v = [(k, v)]"
| "dict_set ((k', v') # d) k v =
     (if k' = k then (k', v) # d else (k', v') # dict_set d k v)"

text \<open>A dict comprehension \<^verbatim>\<open>{k: v for ...}\<close> stores the generated items one after the
  other into an empty dict.\<close>

definition dict_comprehension :: "('k \<times> 'v) list \<Rightarrow> ('k \<times> 'v) list" where
  "dict_comprehension items = foldl (\<lambda>d (k, v). dict_set d k v) [] items"

text \<open>\<^verbatim>\<open>d[k]\<close> is \<open>map_of d k\<close>, with \<open>None\<close> for the \<^verbatim>\<open>KeyError\<close>; \<^verbatim>\<open>k in d\<close> is
  \<open>map_of d k \<noteq> None\<close>.\<close>

subsection \<open>str\<close>

text \<open>\<^verbatim>\<open>s.startswith(kw)\<close>\<close>

fun startswith :: "'c list \<Rightarrow> 'c list \<Rightarrow> bool" where
  "startswith s [] = True"
| "startswith [] (k # kw) = False"
| "startswith (c # s) (k # kw) = (c = k \<and> startswith s kw)"

text \<open>\<^verbatim>\<open>kw in s\<close>: \<open>kw\<close> occurs in \<open>s\<close> as a contiguous substring.\<close>

fun str_contains :: "'c list \<Rightarrow> 'c list \<Rightarrow> bool" where
  "str_contains kw [] = (kw = [])"
| "str_contains kw (c # s) = (startswith (c # s) kw \<or> str_contains kw s)"

text \<open>\<^verbatim>\<open>s.strip()\<close>: drop the leading and the trailing whitespace.\<close>

definition str_strip :: "('c \<Rightarrow> bool) \<Rightarrow> 'c list \<Rightarrow> 'c list" where
  "str_strip isspace s = rev (dropWhile isspace (rev (dropWhile isspace s)))"

section \<open>The classifier\<close>

record 'c ClassificationResult =
  subject_code :: string
  confidence :: real
  matched_keywords :: "'c list list"

record 'c AccountClassifier =
  keyword_map :: "(string \<times> 'c list list) list"
  exact_lookup :: "('c list \<times> string) list"

subsection \<open>\<^verbatim>\<open>AccountClassifier.__init__\<close>\<close>

text \<open>The optional argument \<^verbatim>\<open>exact_lookup\<close> is \<open>None\<close> when it is absent;
  \<^verbatim>\<open>exact_lookup or {}\<close> replaces \<^verbatim>\<open>None\<close> and the empty dict by a new empty dict.\<close>

definition AccountClassifier_init ::
  "('c list \<Rightarrow> 'c list) \<Rightarrow> (string \<times> 'c list list) list \<Rightarrow> ('c list \<times> string) list option
    \<Rightarrow> error + 'c AccountClassifier" where
  "AccountClassifier_init lower keyword_map0 exact_lookup0 =
     (if keyword_map0 = [] then Inl (ValueError ''keyword_map must not be empty'')
      else Inr \<lparr>
        keyword_map = dict_comprehension
          (map (\<lambda>(code, keywords). (code, map lower keywords)) keyword_map0),
        exact_lookup = dict_comprehension
          (map (\<lambda>(key, value). (lower key, value))
            (case exact_lookup0 of None \<Rightarrow> [] | Some d \<Rightarrow> if d = [] then [] else d)) \<rparr>)"

subsection \<open>\<^verbatim>\<open>AccountClassifier.classify\<close>\<close>

text \<open>The inner loop of the keyword scan, for one code:
  \<^verbatim>\<open>for kw in keywords: if kw in normalized: token_matches[code].append(kw)\<close>.\<close>

fun scan_keywords ::
  "'c list \<Rightarrow> string \<Rightarrow> 'c list list \<Rightarrow> (string \<times> 'c list list) list
    \<Rightarrow> error + (string \<times> 'c list list) list" where
  "scan_keywords normalized code [] token_matches = Inr token_matches"
| "scan_keywords normalized code (kw # keywords) token_matches =
     (if str_contains kw normalized then
        (case map_of token_matches code of
           None \<Rightarrow> Inl KeyError
         | Some matches \<Rightarrow>
             scan_keywords normalized code keywords (dict_set token_matches code (matches @ [kw])))
      else scan_keywords normalized code keywords token_matches)"

text \<open>The outer loop: \<^verbatim>\<open>for code, keywords in self.keyword_map.items()\<close>.\<close>

fun scan_codes ::
  "'c list \<Rightarrow> (string \<times> 'c list list) list \<Rightarrow> (string \<times> 'c list list) list
    \<Rightarrow> error + (string \<times> 'c list list) list" where
  "scan_codes normalized [] token_matches = Inr token_matches"
| "scan_codes normalized ((code, keywords) # items) token_matches =
     (case scan_keywords normalized code keywords token_matches of
        Inl e \<Rightarrow> Inl e
      | Inr token_matches' \<Rightarrow> scan_codes normalized items token_matches')"

text \<open>The score of one code's matches in a normalized text of length \<open>n\<close>.\<close>

definition score_of :: "nat \<Rightarrow> 'c list list \<Rightarrow> real" where
  "score_of n matches =
     (let raw_score = length matches;
          density = real (sum_list (map length matches)) / real (max n 1)
      in 0.6 * real raw_score + 0.4 * density)"

text \<open>The selection loop \<^verbatim>\<open>for code, matches in token_matches.items()\<close> over the state
  \<open>(best_code, best_score, best_keywords)\<close>.\<close>

fun select_best ::
  "nat \<Rightarrow> (string \<times> 'c list list) list \<Rightarrow> string option \<times> real \<times> 'c list list
    \<Rightarrow> string option \<times> real \<times> 'c list list" where
  "select_best n [] best = best"
| "select_best n ((code, matches) # items) (best_code, best_score, best_keywords) =
     (if matches = [] then select_best n items (best_code, best_score, best_keywords)
      else if score_of n matches > best_score
        then select_best n items (Some code, score_of n matches, matches)
        else select_best n items (best_code, best_score, best_keywords))"

definition classify ::
  "('c list \<Rightarrow> 'c list) \<Rightarrow> ('c \<Rightarrow> bool) \<Rightarrow> 'c AccountClassifier \<Rightarrow> 'c list
    \<Rightarrow> error + 'c ClassificationResult" where
  "classify lower isspace self text =
     (let normalized = str_strip isspace (lower text) in
      if normalized = [] then Inl (ValueError ''text must not be empty'')
      else case map_of (exact_lookup self) normalized of
        Some subject \<Rightarrow>
          Inr \<lparr>subject_code = subject, confidence = 1, matched_keywords = [normalized]\<rparr>
      | None \<Rightarrow>
         (case scan_codes normalized (keyword_map self)
                 (dict_comprehension (map (\<lambda>(code, keywords). (code, [])) (keyword_map self))) of
            Inl e \<Rightarrow> Inl e
          | Inr token_matches \<Rightarrow>
             (case select_best (length normalized) token_matches (None, 0, []) of
                (None, best_score, best_keywords) \<Rightarrow>
                  Inr \<lparr>subject_code = ''UNCLASSIFIED'', confidence = 0, matched_keywords = []\<rparr>
              | (Some best_code, best_score, best_keywords) \<Rightarrow>
                  Inr \<lparr>subject_code = best_code,
                       confidence = min (best_score / (best_score + 1)) 1,
                       matched_keywords = best_keywords\<rparr>)))"

text \<open>A method call on the object: \<^verbatim>\<open>classify\<close> assigns to no attribute of
  \<^verbatim>\<open>self\<close>, so the object after the call is the object before it.\<close>

definition classify_call ::
  "('c list \<Rightarrow> 'c list) \<Rightarrow> ('c \<Rightarrow> bool) \<Rightarrow> 'c AccountClassifier \<Rightarrow> 'c list
    \<Rightarrow> 'c AccountClassifier \<times> (error + 'c ClassificationResult)" where
  "classify_call lower isspace self text = (self, classify lower isspace self text)"

subsection \<open>ASCII instances of the runtime's tables\<close>

text \<open>On ASCII text, \<^verbatim>\<open>str.lower\<close> maps \<^verbatim>\<open>A\<close>..\<^verbatim>\<open>Z\<close> to \<^verbatim>\<open>a\<close>..\<^verbatim>\<open>z\<close> and
  \<^verbatim>\<open>str.strip\<close> removes space, tab, line feed, vertical tab, form feed, carriage return
  and the four separators \<^verbatim>\<open>0x1c\<close>..\<^verbatim>\<open>0x1f\<close>.\<close>

definition ascii_lower_char :: "char \<Rightarrow> char" where
  "ascii_lower_char c =
     (let n = of_char c :: nat in if 65 \<le> n \<and> n \<le> 90 then char_of (n + 32) else c)"

definition ascii_lower :: "string \<Rightarrow> string" where
  "ascii_lower s = map ascii_lower_char s"

definition ascii_isspace :: "char \<Rightarrow> bool" where
  "ascii_isspace c =
     (let n = of_char c :: nat in n = 32 \<or> (9 \<le> n \<and> n \<le> 13) \<or> (28 \<le> n \<and> n \<le> 31))"

section \<open>Properties\<close>

subsection \<open>dict\<close>

lemma map_of_dict_set: "map_of (dict_set d k v) = (map_of d)(k \<mapsto> v)"
  by (induction d k v rule: dict_set.induct) auto

lemma keys_dict_set:
  "map fst (dict_set d k v) = (if k \<in> set (map fst d) then map fst d else map fst d @ [k])"
  by (induction d k v rule: dict_set.induct) auto

lemma distinct_dict_set: "distinct (map fst d) \<Longrightarrow> distinct (map fst (dict_set d k v))"
  by (simp add: keys_dict_set)

lemma dict_set_new: "k \<notin> set (map fst d) \<Longrightarrow> dict_set d k v = d @ [(k, v)]"
  by (induction d k v rule: dict_set.induct) auto

lemma dict_set_present:
  "distinct (map fst d) \<Longrightarrow> k \<in> set (map fst d) \<Longrightarrow>
     dict_set d k v = map (\<lambda>(c, w). (c, if c = k then v else w)) d"
proof (induction d k v rule: dict_set.induct)
  case (1 k v)
  then show ?case by simp
next
  case (2 k' v' d k v)
  show ?case
  proof (cases "k' = k")
    case True
    with 2 have "k \<notin> set (map fst d)" by simp
    then have "map (\<lambda>(c, w). (c, if c = k then v else w)) d = d"
      by (induction d) auto
    with True show ?thesis by simp
  next
    case False
    with 2 show ?thesis by simp
  qed
qed

lemma foldl_dict_set_distinct:
  "distinct (map fst d) \<Longrightarrow> distinct (map fst (foldl (\<lambda>d (k, v). dict_set d k v) d items))"
proof (induction items arbitrary: d)
  case Nil
  then show ?case by simp
next
  case (Cons a items)
  obtain k v where a: "a = (k, v)" by (cases a)
  from Cons.prems have "distinct (map fst (dict_set d k v))" by (rule distinct_dict_set)
  from Cons.IH [OF this] show ?case unfolding a by simp
qed

lemma distinct_dict_comprehension: "distinct (map fst (dict_comprehension items))"
  by (simp add: dict_comprehension_def foldl_dict_set_distinct)

lemma foldl_dict_set_map_of:
  "map_of (foldl (\<lambda>d (k, v). dict_set d k v) d items) = map_of d ++ map_of (rev items)"
proof (induction items arbitrary: d)
  case Nil
  then show ?case by simp
next
  case (Cons a items)
  obtain k v where a: "a = (k, v)" by (cases a)
  have "map_of (foldl (\<lambda>d (k, v). dict_set d k v) d (a # items))
      = map_of (dict_set d k v) ++ map_of (rev items)"
    unfolding a using Cons.IH [of "dict_set d k v"] by simp
  also have "\<dots> = (map_of d)(k \<mapsto> v) ++ map_of (rev items)"
    by (simp only: map_of_dict_set)
  also have "\<dots> = map_of d ++ map_of (rev (a # items))"
    unfolding a by (rule ext) (simp add: map_add_def split: option.splits)
  finally show ?case .
qed

lemma map_of_dict_comprehension: "map_of (dict_comprehension items) = map_of (rev items)"
  by (simp add: dict_comprehension_def foldl_dict_set_map_of)

lemma foldl_dict_set_fresh:
  "distinct (map fst (d @ items)) \<Longrightarrow> foldl (\<lambda>d (k, v). dict_set d k v) d items = d @ items"
proof (induction items arbitrary: d)
  case Nil
  then show ?case by simp
next
  case (Cons a items)
  obtain k v where a: "a = (k, v)" by (cases a)
  from Cons.prems a have k: "k \<notin> set (map fst d)" by auto
  from Cons.prems a have "distinct (map fst ((d @ [(k, v)]) @ items))" by auto
  from Cons.IH [OF this] k a show ?case by (simp add: dict_set_new)
qed

lemma dict_comprehension_distinct:
  "distinct (map fst items) \<Longrightarrow> dict_comprehension items = items"
  using foldl_dict_set_fresh [of "[]" items] by (simp add: dict_comprehension_def)

lemma set_keys_dict_set: "fst ` set (dict_set d k v) = insert k (fst ` set d)"
  by (induction d k v rule: dict_set.induct) auto

lemma foldl_dict_set_keys:
  "fst ` set (foldl (\<lambda>d (k, v). dict_set d k v) d items) = fst ` set d \<union> fst ` set items"
proof (induction items arbitrary: d)
  case Nil
  then show ?case by simp
next
  case (Cons a items)
  obtain k v where a: "a = (k, v)" by (cases a)
  show ?case unfolding a using Cons.IH [of "dict_set d k v"] set_keys_dict_set [of d k v]
    by auto
qed

lemma keys_dict_comprehension: "fst ` set (dict_comprehension items) = fst ` set items"
  by (simp add: dict_comprehension_def foldl_dict_set_keys)

lemma dict_comprehension_Nil_iff: "dict_comprehension items = [] \<longleftrightarrow> items = []"
  using keys_dict_comprehension [of items] by (cases items; cases "dict_comprehension items") auto

subsection \<open>str\<close>

lemma startswith_iff: "startswith s kw \<longleftrightarrow> (\<exists>post. s = kw @ post)"
  by (induction s kw rule: startswith.induct) auto

lemma str_contains_iff: "str_contains kw s \<longleftrightarrow> (\<exists>pre post. s = pre @ kw @ post)"
proof (induction kw s rule: str_contains.induct)
  case (1 kw)
  then show ?case by auto
next
  case (2 kw c s)
  show ?case
  proof
    assume "str_contains kw (c # s)"
    then consider "startswith (c # s) kw" | "str_contains kw s" by auto
    then show "\<exists>pre post. c # s = pre @ kw @ post"
    proof cases
      case 1
      then obtain post where "c # s = kw @ post" by (auto simp: startswith_iff)
      then have "c # s = [] @ kw @ post" by simp
      then show ?thesis by blast
    next
      case 2
      with "2.IH" obtain pre post where "s = pre @ kw @ post" by auto
      then have "c # s = (c # pre) @ kw @ post" by simp
      then show ?thesis by blast
    qed
  next
    assume "\<exists>pre post. c # s = pre @ kw @ post"
    then obtain pre post where e: "c # s = pre @ kw @ post" by auto
    show "str_contains kw (c # s)"
    proof (cases pre)
      case Nil
      with e have "startswith (c # s) kw" by (auto simp: startswith_iff)
      then show ?thesis by simp
    next
      case (Cons p pre')
      with e have "s = pre' @ kw @ post" by simp
      with "2.IH" have "str_contains kw s" by blast
      then show ?thesis by simp
    qed
  qed
qed

lemma dropWhile_all_iff: "(\<forall>x \<in> set (dropWhile P xs). P x) \<longleftrightarrow> (\<forall>x \<in> set xs. P x)"
  by (induction xs) auto

lemma str_strip_Nil_iff: "str_strip isspace s = [] \<longleftrightarrow> (\<forall>c \<in> set s. isspace c)"
  unfolding str_strip_def rev_is_Nil_conv dropWhile_eq_Nil_conv set_rev dropWhile_all_iff ..

lemma str_strip_ends:
  assumes "str_strip isspace s \<noteq> []"
  shows "\<not> isspace (hd (str_strip isspace s))" and "\<not> isspace (last (str_strip isspace s))"
proof -
  let ?d = "dropWhile isspace s"
  let ?e = "dropWhile isspace (rev ?d)"
  have t: "str_strip isspace s = rev ?e" by (simp add: str_strip_def)
  from assms t have e: "?e \<noteq> []" by simp
  have d: "?d \<noteq> []"
  proof
    assume "?d = []"
    then have "?e = []" by (simp only: rev.simps dropWhile.simps)
    with e show False by contradiction
  qed
  have hd_e: "\<not> isspace (hd ?e)" using e by (rule hd_dropWhile)
  have hd_d: "\<not> isspace (hd ?d)" using d by (rule hd_dropWhile)
  have "rev ?d = takeWhile isspace (rev ?d) @ ?e" by simp
  then have "last (rev ?d) = last ?e" using e by (metis last_appendR)
  then have last_e: "last ?e = hd ?d" using d by (simp add: last_rev)
  show "\<not> isspace (hd (str_strip isspace s))"
    using e hd_d last_e by (simp add: t hd_rev)
  show "\<not> isspace (last (str_strip isspace s))"
    using e hd_e by (simp add: t last_rev)
qed

lemma str_strip_id:
  assumes "t = [] \<or> (\<not> isspace (hd t) \<and> \<not> isspace (last t))"
  shows "str_strip isspace t = t"
proof (cases "t = []")
  case True
  then show ?thesis by (simp add: str_strip_def)
next
  case False
  with assms have h: "\<not> isspace (hd t)" and l: "\<not> isspace (last t)" by auto
  from False h have 1: "dropWhile isspace t = t" by (cases t) auto
  from False l have "\<not> isspace (hd (rev t))" by (simp add: hd_rev)
  with False have 2: "dropWhile isspace (rev t) = rev t" by (cases "rev t") auto
  show ?thesis by (simp add: str_strip_def 1 2)
qed

lemma str_strip_fixed: "str_strip isspace (str_strip isspace s) = str_strip isspace s"
  using str_strip_ends [of isspace s] by (intro str_strip_id) blast

subsection \<open>The keyword scan\<close>

lemma scan_keywords_ok:
  assumes "distinct (map fst tm)" and "code \<in> fst ` set tm"
  shows "scan_keywords n code kws tm =
    Inr (map (\<lambda>(c, ms). (c, if c = code then ms @ filter (\<lambda>kw. str_contains kw n) kws else ms)) tm)"
  using assms
proof (induction kws arbitrary: tm)
  case Nil
  show ?case by (induction tm) auto
next
  case (Cons kw kws)
  show ?case
  proof (cases "str_contains kw n")
    case False
    have "scan_keywords n code (kw # kws) tm = scan_keywords n code kws tm"
      using False by simp
    also have "\<dots> = Inr (map (\<lambda>(c, ms). (c, if c = code then ms @ filter (\<lambda>kw. str_contains kw n) kws else ms)) tm)"
      using Cons.prems by (rule Cons.IH)
    also have "filter (\<lambda>kw. str_contains kw n) kws = filter (\<lambda>kw. str_contains kw n) (kw # kws)"
      using False by simp
    finally show ?thesis .
  next
    case True
    from Cons.prems obtain ms where ms: "map_of tm code = Some ms"
      by (metis domD dom_map_of_conv_image_fst)
    let ?tm' = "dict_set tm code (ms @ [kw])"
    have tm': "?tm' = map (\<lambda>(c, w). (c, if c = code then ms @ [kw] else w)) tm"
      using Cons.prems by (intro dict_set_present) auto
    have d': "distinct (map fst ?tm')" using Cons.prems(1) by (rule distinct_dict_set)
    have c': "code \<in> fst ` set ?tm'" by (simp add: set_keys_dict_set)
    have same: "w = ms" if "(code, w) \<in> set tm" for w
      using that ms Cons.prems(1) by simp
    have "scan_keywords n code (kw # kws) tm = scan_keywords n code kws ?tm'"
      using True ms by simp
    also have "\<dots> = Inr (map (\<lambda>(c, ms). (c, if c = code then ms @ filter (\<lambda>kw. str_contains kw n) kws else ms)) ?tm')"
      using d' c' by (rule Cons.IH)
    also have "map (\<lambda>(c, ms). (c, if c = code then ms @ filter (\<lambda>kw. str_contains kw n) kws else ms)) ?tm'
       = map (\<lambda>(c, ms). (c, if c = code then ms @ filter (\<lambda>kw. str_contains kw n) (kw # kws) else ms)) tm"
      unfolding tm' using True same by (auto simp: map_eq_conv)
    finally show ?thesis .
  qed
qed

lemma scan_codes_ok:
  assumes "distinct (map fst tm)" and "distinct (map fst items)"
    and "fst ` set items \<subseteq> fst ` set tm"
  shows "scan_codes n items tm =
    Inr (map (\<lambda>(c, ms). (c, ms @ (case map_of items c of None \<Rightarrow> []
                                   | Some kws \<Rightarrow> filter (\<lambda>kw. str_contains kw n) kws))) tm)"
  using assms
proof (induction items arbitrary: tm)
  case Nil
  show ?case by (induction tm) auto
next
  case (Cons a items)
  obtain code kws where a: "a = (code, kws)" by (cases a)
  let ?P = "\<lambda>kw. str_contains kw n"
  let ?tm' = "map (\<lambda>(c, ms). (c, if c = code then ms @ filter ?P kws else ms)) tm"
  from Cons.prems a have code: "code \<in> fst ` set tm" by auto
  have step: "scan_keywords n code kws tm = Inr ?tm'"
    using Cons.prems(1) code by (rule scan_keywords_ok)
  have keys: "map fst ?tm' = map fst tm" by (induction tm) auto
  have d': "distinct (map fst ?tm')" by (simp only: keys Cons.prems(1))
  have d2: "distinct (map fst items)" using Cons.prems(2) by simp
  have "set (map fst items) \<subseteq> set (map fst tm)"
    using Cons.prems(3) by auto
  then have "set (map fst items) \<subseteq> set (map fst ?tm')" by (simp only: keys)
  then have sub: "fst ` set items \<subseteq> fst ` set ?tm'" by (simp only: list.set_map)
  have notin: "map_of items code = None"
    using Cons.prems(2) a by (simp add: map_of_eq_None_iff)
  have "scan_codes n (a # items) tm = scan_codes n items ?tm'"
    unfolding a using step by simp
  also have "\<dots> = Inr (map (\<lambda>(c, ms). (c, ms @ (case map_of items c of None \<Rightarrow> []
                                   | Some kws \<Rightarrow> filter ?P kws))) ?tm')"
    using d' d2 sub by (rule Cons.IH)
  also have "map (\<lambda>(c, ms). (c, ms @ (case map_of items c of None \<Rightarrow> []
                                   | Some kws \<Rightarrow> filter ?P kws))) ?tm'
     = map (\<lambda>(c, ms). (c, ms @ (case map_of (a # items) c of None \<Rightarrow> []
                                   | Some kws \<Rightarrow> filter ?P kws))) tm"
    unfolding a using notin by (auto simp: map_eq_conv)
  finally show ?case .
qed

lemma token_matches_eq:
  assumes "distinct (map fst km)"
  shows "scan_codes n km (dict_comprehension (map (\<lambda>(code, keywords). (code, [])) km)) =
    Inr (map (\<lambda>(code, keywords). (code, filter (\<lambda>kw. str_contains kw n) keywords)) km)"
proof -
  let ?init = "map (\<lambda>(code, keywords). (code, [])) km"
  have keys: "map fst ?init = map fst km" by (induction km) auto
  have dinit: "distinct (map fst ?init)" by (simp only: keys assms)
  have init: "dict_comprehension ?init = ?init"
    using dinit by (rule dict_comprehension_distinct)
  have "set (map fst km) \<subseteq> set (map fst ?init)" by (simp only: keys order_refl)
  then have sub: "fst ` set km \<subseteq> fst ` set ?init" by (simp only: list.set_map)
  have "scan_codes n km ?init =
    Inr (map (\<lambda>(c, ms). (c, ms @ (case map_of km c of None \<Rightarrow> []
                                   | Some kws \<Rightarrow> filter (\<lambda>kw. str_contains kw n) kws))) ?init)"
    using dinit assms sub by (rule scan_codes_ok)
  also have "map (\<lambda>(c, ms). (c, ms @ (case map_of km c of None \<Rightarrow> []
                                   | Some kws \<Rightarrow> filter (\<lambda>kw. str_contains kw n) kws))) ?init
    = map (\<lambda>(code, keywords). (code, filter (\<lambda>kw. str_contains kw n) keywords)) km"
    using assms by (auto simp: map_eq_conv)
  finally show ?thesis unfolding init .
qed

subsection \<open>The selection loop\<close>

lemma score_of_ge: "matches \<noteq> [] \<Longrightarrow> 0.6 \<le> score_of n matches"
proof -
  assume "matches \<noteq> []"
  then have "1 \<le> real (length matches)" by (cases matches) auto
  then have a: "(0.6::real) \<le> 0.6 * real (length matches)" by simp
  have "0 \<le> real (sum_list (map length matches)) / real (max n 1)" by simp
  then have b: "0 \<le> 0.4 * (real (sum_list (map length matches)) / real (max n 1))" by simp
  have "score_of n matches = 0.6 * real (length matches)
      + 0.4 * (real (sum_list (map length matches)) / real (max n 1))"
    by (simp only: score_of_def Let_def)
  with a b show ?thesis by linarith
qed

lemma score_of_pos: "matches \<noteq> [] \<Longrightarrow> 0 < score_of n matches"
  using score_of_ge [of matches n] by simp


lemma select_best_keep:
  "(\<And>c ms. (c, ms) \<in> set items \<Longrightarrow> ms \<noteq> [] \<Longrightarrow> score_of n ms \<le> bs) \<Longrightarrow>
     select_best n items (bc, bs, bk) = (bc, bs, bk)"
proof (induction items)
  case Nil
  then show ?case by simp
next
  case (Cons a items)
  obtain c ms where a: "a = (c, ms)" by (cases a)
  have "ms \<noteq> [] \<Longrightarrow> score_of n ms \<le> bs" using Cons.prems [of c ms] a by simp
  moreover have "select_best n items (bc, bs, bk) = (bc, bs, bk)"
    using Cons.prems by (intro Cons.IH) auto
  ultimately show ?case unfolding a by auto
qed



lemma select_best_result:
  "select_best n items (bc, bs, bk) = (bc, bs, bk) \<or>
   (\<exists>c ms. (c, ms) \<in> set items \<and> ms \<noteq> [] \<and> bs < score_of n ms \<and>
      select_best n items (bc, bs, bk) = (Some c, score_of n ms, ms))"
proof (induction items arbitrary: bc bs bk)
  case Nil
  then show ?case by simp
next
  case (Cons a items)
  obtain c ms where a: "a = (c, ms)" by (cases a)
  show ?case
  proof (cases "ms \<noteq> [] \<and> score_of n ms > bs")
    case True
    then have eq: "select_best n (a # items) (bc, bs, bk) = select_best n items (Some c, score_of n ms, ms)"
      unfolding a by simp
    from Cons.IH [of "Some c" "score_of n ms" ms] True show ?thesis
      unfolding eq a by (elim disjE exE conjE) (auto intro: less_trans)
  next
    case False
    then have eq: "select_best n (a # items) (bc, bs, bk) = select_best n items (bc, bs, bk)"
      unfolding a by auto
    from Cons.IH [of bc bs bk] show ?thesis
      unfolding eq by auto
  qed
qed

lemma select_best_Some_stays: "fst (select_best n items (Some c, s, k)) \<noteq> None"
  using select_best_result [of n items "Some c" s k] by auto

lemma select_best_None_iff:
  "fst (select_best n items (None, 0, [])) = None \<longleftrightarrow> (\<forall>(c, ms) \<in> set items. ms = [])"
proof (induction items)
  case Nil
  then show ?case by simp
next
  case (Cons a items)
  obtain c ms where a: "a = (c, ms)" by (cases a)
  show ?case
  proof (cases "ms = []")
    case True
    then show ?thesis unfolding a using Cons.IH by simp
  next
    case False
    then have "select_best n (a # items) (None, 0, []) = select_best n items (Some c, score_of n ms, ms)"
      unfolding a using score_of_pos [of ms n] by simp
    then show ?thesis unfolding a using False select_best_Some_stays [of n items c "score_of n ms" ms]
      by simp
  qed
qed

subsection \<open>Construction and the paths of \<^verbatim>\<open>classify\<close>\<close>

lemma init_Inr:
  assumes "AccountClassifier_init lower km el = Inr eng"
  shows "km \<noteq> []"
    and "keyword_map eng = dict_comprehension (map (\<lambda>(code, keywords). (code, map lower keywords)) km)"
    and "exact_lookup eng = dict_comprehension (map (\<lambda>(key, value). (lower key, value))
            (case el of None \<Rightarrow> [] | Some d \<Rightarrow> d))"
  using assms by (auto simp: AccountClassifier_init_def split: if_splits option.splits)

lemma init_distinct:
  assumes "AccountClassifier_init lower km el = Inr eng"
  shows "distinct (map fst (keyword_map eng))"
  using init_Inr(2) [OF assms] by (simp only: distinct_dict_comprehension)

lemma init_nonempty:
  assumes "AccountClassifier_init lower km el = Inr eng"
  shows "keyword_map eng \<noteq> []"
  using init_Inr(1,2) [OF assms] by (simp add: dict_comprehension_Nil_iff)

lemma classify_scan:
  assumes "distinct (map fst (keyword_map eng))"
    and "str_strip isspace (lower text) = n" and "n \<noteq> []"
    and "map_of (exact_lookup eng) n = None"
  shows "classify lower isspace eng text =
    (case select_best (length n)
        (map (\<lambda>(code, keywords). (code, filter (\<lambda>kw. str_contains kw n) keywords)) (keyword_map eng))
        (None, 0, []) of
       (None, s, k) \<Rightarrow> Inr \<lparr>subject_code = ''UNCLASSIFIED'', confidence = 0, matched_keywords = []\<rparr>
     | (Some c, s, k) \<Rightarrow> Inr \<lparr>subject_code = c, confidence = min (s / (s + 1)) 1, matched_keywords = k\<rparr>)"
  using assms by (simp add: classify_def Let_def token_matches_eq)

lemma classify_no_match:
  assumes "distinct (map fst (keyword_map eng))"
    and "str_strip isspace (lower text) = n" and "n \<noteq> []"
    and "map_of (exact_lookup eng) n = None"
    and "\<And>code keywords. (code, keywords) \<in> set (keyword_map eng) \<Longrightarrow>
           filter (\<lambda>kw. str_contains kw n) keywords = []"
  shows "classify lower isspace eng text =
     Inr \<lparr>subject_code = ''UNCLASSIFIED'', confidence = 0, matched_keywords = []\<rparr>"
proof -
  have "select_best (length n)
        (map (\<lambda>(code, keywords). (code, filter (\<lambda>kw. str_contains kw n) keywords)) (keyword_map eng))
        (None, 0, []) = (None, 0, [])"
    using assms(5) by (intro select_best_keep) auto
  then show ?thesis
    using classify_scan [of eng isspace lower "text" n, OF assms(1-4)] by simp
qed

lemma classify_some_match:
  assumes "distinct (map fst (keyword_map eng))"
    and "str_strip isspace (lower text) = n" and "n \<noteq> []"
    and "map_of (exact_lookup eng) n = None"
    and "(code0, keywords0) \<in> set (keyword_map eng)"
    and "filter (\<lambda>kw. str_contains kw n) keywords0 \<noteq> []"
  shows "\<exists>code keywords. (code, keywords) \<in> set (keyword_map eng) \<and>
     filter (\<lambda>kw. str_contains kw n) keywords \<noteq> [] \<and>
     classify lower isspace eng text =
       Inr \<lparr>subject_code = code,
            confidence = min (score_of (length n) (filter (\<lambda>kw. str_contains kw n) keywords)
               / (score_of (length n) (filter (\<lambda>kw. str_contains kw n) keywords) + 1)) 1,
            matched_keywords = filter (\<lambda>kw. str_contains kw n) keywords\<rparr>"
proof -
  let ?M = "\<lambda>keywords. filter (\<lambda>kw. str_contains kw n) keywords"
  let ?tm = "map (\<lambda>(code, keywords). (code, ?M keywords)) (keyword_map eng)"
  have "(code0, ?M keywords0) \<in> set ?tm" using assms(5) by force
  with assms(6) have "\<not> (\<forall>(c, ms) \<in> set ?tm. ms = [])" by blast
  then have nn: "fst (select_best (length n) ?tm (None, 0, [])) \<noteq> None"
    by (simp only: select_best_None_iff not_False_eq_True)
  from select_best_result [of "length n" ?tm None 0 "[]"] nn
  obtain c ms where cm: "(c, ms) \<in> set ?tm" "ms \<noteq> []"
    and sel: "select_best (length n) ?tm (None, 0, []) = (Some c, score_of (length n) ms, ms)"
    by (elim disjE exE conjE) simp_all
  from cm(1) have "\<exists>keywords. (c, keywords) \<in> set (keyword_map eng) \<and> ms = ?M keywords"
    by (induction "keyword_map eng") auto
  then obtain kws where k: "(c, kws) \<in> set (keyword_map eng)" "ms = ?M kws"
    by blast
  have "classify lower isspace eng text =
       Inr \<lparr>subject_code = c,
            confidence = min (score_of (length n) ms / (score_of (length n) ms + 1)) 1,
            matched_keywords = ms\<rparr>"
    using classify_scan [of eng isspace lower "text" n, OF assms(1-4)] sel by simp
  with k cm(2) show ?thesis by blast
qed

lemma conf_bounds:
  fixes s :: real
  assumes "0.6 \<le> s"
  shows "0.375 \<le> s / (s + 1)" and "s / (s + 1) < 1"
proof -
  have pos: "0 < s + 1" using assms by simp
  have "0.375 * (s + 1) \<le> s" using assms by simp
  then show "0.375 \<le> s / (s + 1)" using pos by (simp add: pos_le_divide_eq)
  show "s / (s + 1) < 1" using pos by (simp add: pos_divide_less_eq)
qed

lemma classify_exact_hit:
  assumes "str_strip isspace (lower text) = n" and "n \<noteq> []"
    and "map_of (exact_lookup eng) n = Some code"
  shows "classify lower isspace eng text =
     Inr \<lparr>subject_code = code, confidence = 1, matched_keywords = [n]\<rparr>"
  using assms by (simp add: classify_def Let_def)

lemma count_list_filter_le: "count_list (filter P xs) x \<le> count_list xs x"
  by (induction xs) auto

lemma classify_total:
  assumes d: "distinct (map fst (keyword_map eng))"
    and n: "str_strip isspace (lower text) \<noteq> []"
  shows "\<exists>r. classify lower isspace eng text = Inr r"
proof (cases "map_of (exact_lookup eng) (str_strip isspace (lower text))")
  case (Some subject)
  with n show ?thesis by (simp add: classify_def Let_def)
next
  case None
  show ?thesis
    unfolding classify_scan [of eng isspace lower "text", OF d refl n None]
    by (auto split: prod.splits option.splits)
qed

section \<open>The claims\<close>

subsection \<open>C1: precedence of the exact lookup\<close>

text \<open>
  Claim C1, as the code has it. For every engine and every input text whose normalized form
  (lowercased, then stripped) is not empty and equals a key of the exact lookup,
  \<^verbatim>\<open>classify\<close> returns that key's code, confidence exactly \<open>1\<close> and the one-element
  list holding the normalized text, whatever the keyword table is and whatever scores it would
  give: the keyword scan is not reached.
\<close>

theorem classify_exact_match:
  assumes n: "str_strip isspace (lower text) \<noteq> []"
    and ex: "map_of (exact_lookup eng) (str_strip isspace (lower text)) = Some code"
  shows "classify lower isspace eng text =
     Inr \<lparr>subject_code = code, confidence = 1,
          matched_keywords = [str_strip isspace (lower text)]\<rparr>"
  using n ex by (simp add: classify_def Let_def)

text \<open>
  The text \<^verbatim>\<open>" NTT "\<close> normalizes to the exact key \<^verbatim>\<open>"ntt"\<close>, mapped to 611, while
  the keyword \<^verbatim>\<open>"ntt"\<close> belongs to 622: the exact lookup wins.
\<close>

theorem classify_exact_match_witness:
  "classify ascii_lower ascii_isspace
        \<lparr>keyword_map = [(''611'', [''train'', ''taxi'']), (''622'', [''wifi'', ''ntt''])],
         exact_lookup = [(''ntt'', ''611'')]\<rparr> '' NTT ''
     = Inr \<lparr>subject_code = ''611'', confidence = 1, matched_keywords = [''ntt'']\<rparr>"
proof -
  let ?eng = "\<lparr>keyword_map = [(''611'', [''train'', ''taxi'']), (''622'', [''wifi'', ''ntt''])],
         exact_lookup = [(''ntt'', ''611'')]\<rparr>"
  have s: "str_strip ascii_isspace (ascii_lower '' NTT '') = ''ntt''" by code_simp
  have n: "str_strip ascii_isspace (ascii_lower '' NTT '') \<noteq> []" by code_simp
  have ex: "map_of (exact_lookup ?eng) (str_strip ascii_isspace (ascii_lower '' NTT '')) = Some ''611''"
    by code_simp
  from classify_exact_match [of ascii_isspace ascii_lower "'' NTT ''", OF n ex]
  show ?thesis by (simp only: s)
qed

text \<open>
  The emptiness check comes before the exact lookup. With the empty string as an
  exact-lookup key, a blank text normalizes to that key and \<^verbatim>\<open>classify\<close> still raises.
\<close>

theorem classify_exact_match_empty_key_counterexample:
  "AccountClassifier_init ascii_lower [(''611'', [''taxi''])] (Some [([], ''622'')])
     = Inr \<lparr>keyword_map = [(''611'', [''taxi''])], exact_lookup = [([], ''622'')]\<rparr>
   \<and> map_of (exact_lookup \<lparr>keyword_map = [(''611'', [''taxi''])], exact_lookup = [([], ''622'')]\<rparr>)
        (str_strip ascii_isspace (ascii_lower ''  '')) = Some ''622''
   \<and> classify ascii_lower ascii_isspace
        \<lparr>keyword_map = [(''611'', [''taxi''])], exact_lookup = [([], ''622'')]\<rparr> ''  ''
     = Inl (ValueError ''text must not be empty'')"
  by code_simp

subsection \<open>C2: normalization of the exact-lookup keys\<close>

text \<open>
  Claim C2, as the code has it. \<^verbatim>\<open>__init__\<close> lowercases every exact-lookup key and does
  not strip it: the keys of the engine are the lowercased keys of the argument. For an engine
  constructed with the key \<open>key\<close>, a text whose normalized form is not empty and equals
  \<open>lower key\<close> (the lowercased key with its whitespace, if it has any) hits the exact-match
  path: \<^verbatim>\<open>classify\<close> returns confidence \<open>1\<close> and the code of the last entry of the
  argument whose lowercased key is that string, which is the code of \<open>key\<close> itself when the
  lowercased keys are distinct. A key whose lowercased form carries leading or trailing
  whitespace is the normalized form of no text, so no input matches it.
\<close>

theorem exact_keys_lowercased_not_trimmed:
  assumes init: "AccountClassifier_init lower km (Some el) = Inr eng"
    and key: "(key, value) \<in> set el"
  shows "fst ` set (exact_lookup eng) = (\<lambda>(k, v). lower k) ` set el
    \<and> (str_strip isspace (lower text) = lower key \<and> lower key \<noteq> [] \<longrightarrow>
        (\<exists>code. map_of (rev (map (\<lambda>(k, v). (lower k, v)) el)) (lower key) = Some code
           \<and> (distinct (map (\<lambda>(k, v). lower k) el) \<longrightarrow> code = value)
           \<and> classify lower isspace eng text =
               Inr \<lparr>subject_code = code, confidence = 1, matched_keywords = [lower key]\<rparr>))
    \<and> (str_strip isspace (lower key) \<noteq> lower key \<longrightarrow> str_strip isspace (lower text) \<noteq> lower key)"
proof -
  let ?f = "\<lambda>(k, v). (lower k, v)"
  have el: "exact_lookup eng = dict_comprehension (map ?f el)"
    using init_Inr(3) [OF init] by simp
  have m: "map_of (exact_lookup eng) = map_of (rev (map ?f el))"
    by (simp only: el map_of_dict_comprehension)
  have "fst ` set (exact_lookup eng) = fst ` set (map ?f el)"
    by (simp only: el keys_dict_comprehension)
  also have "\<dots> = (\<lambda>(k, v). lower k) ` set el" by force
  finally have 1: "fst ` set (exact_lookup eng) = (\<lambda>(k, v). lower k) ` set el" .
  have mem: "(lower key, value) \<in> set (rev (map ?f el))" using key by force
  then have "lower key \<in> fst ` set (rev (map ?f el))" by force
  then obtain code where code: "map_of (rev (map ?f el)) (lower key) = Some code"
    by (metis domD dom_map_of_conv_image_fst)
  have fst_f: "map fst (map ?f el) = map (\<lambda>(k, v). lower k) el" by (induction el) auto
  have cv: "code = value" if d: "distinct (map (\<lambda>(k, v). lower k) el)"
  proof -
    have "distinct (map fst (rev (map ?f el)))"
      using d by (simp only: rev_map [symmetric] distinct_rev fst_f)
    from this mem have "map_of (rev (map ?f el)) (lower key) = Some value" by (rule map_of_is_SomeI)
    with code show ?thesis by simp
  qed
  have 2: "classify lower isspace eng text =
               Inr \<lparr>subject_code = code, confidence = 1, matched_keywords = [lower key]\<rparr>"
    if "str_strip isspace (lower text) = lower key" "lower key \<noteq> []"
    using that code by (intro classify_exact_hit) (simp_all add: m)
  have 3: "str_strip isspace (lower text) \<noteq> lower key" if "str_strip isspace (lower key) \<noteq> lower key"
  proof
    assume "str_strip isspace (lower text) = lower key"
    then have "str_strip isspace (lower key) = str_strip isspace (str_strip isspace (lower text))"
      by simp
    also have "\<dots> = str_strip isspace (lower text)" by (rule str_strip_fixed)
    finally show False using that \<open>str_strip isspace (lower text) = lower key\<close> by simp
  qed
  from 1 2 3 code cv show ?thesis by blast
qed

text \<open>
  The key \<^verbatim>\<open>"NTT"\<close> is stored as \<^verbatim>\<open>"ntt"\<close> and matched by \<^verbatim>\<open>" Ntt "\<close>; the key
  \<^verbatim>\<open>" NTT "\<close> is stored with its spaces and not matched by \<^verbatim>\<open>"ntt"\<close>.
\<close>

theorem exact_keys_lowercased_not_trimmed_witness:
  "classify ascii_lower ascii_isspace
     \<lparr>keyword_map = [(''611'', [''taxi''])], exact_lookup = [(''ntt'', ''622'')]\<rparr> '' Ntt ''
     = Inr \<lparr>subject_code = ''622'', confidence = 1, matched_keywords = [''ntt'']\<rparr>
   \<and> str_strip ascii_isspace (ascii_lower ''ntt'') \<noteq> ascii_lower '' NTT ''"
proof -
  have i1: "AccountClassifier_init ascii_lower [(''611'', [''taxi''])] (Some [(''NTT'', ''622'')])
     = Inr \<lparr>keyword_map = [(''611'', [''taxi''])], exact_lookup = [(''ntt'', ''622'')]\<rparr>"
    by code_simp
  have k1: "(''NTT'', ''622'') \<in> set [(''NTT'', ''622'')]" by simp
  have a: "str_strip ascii_isspace (ascii_lower '' Ntt '') = ascii_lower ''NTT''" by code_simp
  have b: "ascii_lower ''NTT'' \<noteq> []" by code_simp
  have c: "ascii_lower ''NTT'' = ''ntt''" by code_simp
  have dd: "distinct (map (\<lambda>(k, v). ascii_lower k) [(''NTT'', ''622'')])" by simp
  from exact_keys_lowercased_not_trimmed [OF i1 k1, of ascii_isspace "'' Ntt ''"] a b dd
  have 1: "classify ascii_lower ascii_isspace
     \<lparr>keyword_map = [(''611'', [''taxi''])], exact_lookup = [(''ntt'', ''622'')]\<rparr> '' Ntt ''
     = Inr \<lparr>subject_code = ''622'', confidence = 1, matched_keywords = [ascii_lower ''NTT'']\<rparr>"
    by blast
  have i2: "AccountClassifier_init ascii_lower [(''611'', [''taxi''])] (Some [('' NTT '', ''622'')])
     = Inr \<lparr>keyword_map = [(''611'', [''taxi''])], exact_lookup = [('' ntt '', ''622'')]\<rparr>"
    by code_simp
  have k2: "('' NTT '', ''622'') \<in> set [('' NTT '', ''622'')]" by simp
  have e: "str_strip ascii_isspace (ascii_lower '' NTT '') \<noteq> ascii_lower '' NTT ''" by code_simp
  from exact_keys_lowercased_not_trimmed [OF i2 k2, of ascii_isspace "''ntt''"] e
  have 2: "str_strip ascii_isspace (ascii_lower ''ntt'') \<noteq> ascii_lower '' NTT ''"
    by blast
  from 1 2 show ?thesis by (simp only: c simp_thms)
qed

text \<open>
  With the key \<^verbatim>\<open>" NTT "\<close>, the text \<^verbatim>\<open>"ntt"\<close> has the same lowercased and stripped
  form as the key, and yet it misses the exact lookup and is left unclassified.
\<close>

theorem exact_key_not_trimmed_counterexample:
  "AccountClassifier_init ascii_lower [(''611'', [''taxi''])] (Some [('' NTT '', ''622'')])
     = Inr \<lparr>keyword_map = [(''611'', [''taxi''])], exact_lookup = [('' ntt '', ''622'')]\<rparr>
   \<and> str_strip ascii_isspace (ascii_lower ''ntt'') = str_strip ascii_isspace (ascii_lower '' NTT '')
   \<and> classify ascii_lower ascii_isspace
        \<lparr>keyword_map = [(''611'', [''taxi''])], exact_lookup = [('' ntt '', ''622'')]\<rparr> ''ntt''
     = Inr \<lparr>subject_code = ''UNCLASSIFIED'', confidence = 0, matched_keywords = []\<rparr>"
  by code_simp

subsection \<open>C3: the first code with the maximal score wins\<close>




subsection \<open>C4: one record per entry of a keyword list\<close>

text \<open>
  Claim C4, as the code has it. For every constructed engine and every text that reaches the
  keyword scan, the scan raises nothing and records, for every code, exactly the entries of
  that code's keyword list that occur in the normalized text, in the list's order: an entry is
  recorded once however many offsets it occurs at. Hence a keyword appears in the returned
  matched keywords, and counts in the raw score (their number), at most as many times as the
  code's lowercased keyword list holds it, and at most once when that list has no duplicates.
\<close>

theorem scan_records_each_entry_once:
  fixes lower :: "'c list \<Rightarrow> 'c list" and isspace :: "'c \<Rightarrow> bool" and "text" :: "'c list"
    and n :: "'c list"
  defines "n \<equiv> str_strip isspace (lower text)"
  assumes init: "AccountClassifier_init lower km el = Inr eng"
    and n: "n \<noteq> []"
    and ex: "map_of (exact_lookup eng) n = None"
  shows "scan_codes n (keyword_map eng)
            (dict_comprehension (map (\<lambda>(code, keywords). (code, [])) (keyword_map eng)))
          = Inr (map (\<lambda>(code, keywords). (code, filter (\<lambda>kw. str_contains kw n) keywords))
                  (keyword_map eng))
     \<and> (\<forall>r. classify lower isspace eng text = Inr r \<longrightarrow>
          matched_keywords r = []
          \<or> (\<exists>keywords. (subject_code r, keywords) \<in> set (keyword_map eng)
                \<and> matched_keywords r = filter (\<lambda>kw. str_contains kw n) keywords
                \<and> (\<forall>kw. count_list (matched_keywords r) kw \<le> count_list keywords kw)
                \<and> (distinct keywords \<longrightarrow> distinct (matched_keywords r))))"
proof -
  note d = init_distinct [OF init]
  have 1: "scan_codes n (keyword_map eng)
            (dict_comprehension (map (\<lambda>(code, keywords). (code, [])) (keyword_map eng)))
          = Inr (map (\<lambda>(code, keywords). (code, filter (\<lambda>kw. str_contains kw n) keywords))
                  (keyword_map eng))"
    using d by (rule token_matches_eq)
  have 2: "matched_keywords r = []
          \<or> (\<exists>kws. (subject_code r, kws) \<in> set (keyword_map eng)
                \<and> matched_keywords r = filter (\<lambda>kw. str_contains kw n) kws
                \<and> (\<forall>kw. count_list (matched_keywords r) kw \<le> count_list kws kw)
                \<and> (distinct kws \<longrightarrow> distinct (matched_keywords r)))"
    if r: "classify lower isspace eng text = Inr r" for r
  proof (cases "\<exists>code kws. (code, kws) \<in> set (keyword_map eng) \<and> filter (\<lambda>kw. str_contains kw n) kws \<noteq> []")
    case True
    then obtain code0 kws0 where "(code0, kws0) \<in> set (keyword_map eng)"
      "filter (\<lambda>kw. str_contains kw n) kws0 \<noteq> []" by auto
    from classify_some_match [of eng isspace lower "text" n, OF d _ n ex this]
    obtain code kws where k: "(code, kws) \<in> set (keyword_map eng)"
      and c: "classify lower isspace eng text =
       Inr \<lparr>subject_code = code,
            confidence = min (score_of (length n) (filter (\<lambda>kw. str_contains kw n) kws)
                / (score_of (length n) (filter (\<lambda>kw. str_contains kw n) kws) + 1)) 1,
            matched_keywords = filter (\<lambda>kw. str_contains kw n) kws\<rparr>"
      by (auto simp: n_def)
    from r c have "subject_code r = code"
      "matched_keywords r = filter (\<lambda>kw. str_contains kw n) kws" by auto
    with k show ?thesis by (auto simp: count_list_filter_le)
  next
    case False
    then have "filter (\<lambda>kw. str_contains kw n) kws = []"
      if "(code, kws) \<in> set (keyword_map eng)" for code kws
      using that by auto
    with d have "classify lower isspace eng text =
       Inr \<lparr>subject_code = ''UNCLASSIFIED'', confidence = 0, matched_keywords = []\<rparr>"
      using n ex by (intro classify_no_match [where n = n]) (simp_all add: n_def)
    with r show ?thesis by auto
  qed
  from 1 2 show ?thesis by blast
qed

text \<open>
  The keyword \<^verbatim>\<open>"sales"\<close> occurs three times in the text and is recorded once.
\<close>

theorem scan_records_each_entry_once_witness:
  "scan_codes ''sales, sales, sales'' [(''411'', [''sales'', ''sold''])]
      (dict_comprehension (map (\<lambda>(code, keywords). (code, [])) [(''411'', [''sales'', ''sold''])]))
     = Inr [(''411'', [''sales''])]
   \<and> classify ascii_lower ascii_isspace
        \<lparr>keyword_map = [(''411'', [''sales'', ''sold''])], exact_lookup = []\<rparr> ''Sales, sales, SALES''
     = Inr \<lparr>subject_code = ''411'', confidence = 67 / 162, matched_keywords = [''sales'']\<rparr>
   \<and> (\<exists>keywords. (''411'', keywords) \<in> set [(''411'', [''sales'', ''sold''])]
         \<and> count_list [''sales''] ''sales'' \<le> count_list keywords ''sales''
         \<and> distinct keywords \<and> distinct [''sales''])"
proof -
  let ?eng = "\<lparr>keyword_map = [(''411'', [''sales'', ''sold''])], exact_lookup = []\<rparr>
    :: char AccountClassifier"
  let ?n = "str_strip ascii_isspace (ascii_lower ''Sales, sales, SALES'')"
  have i: "AccountClassifier_init ascii_lower [(''411'', [''Sales'', ''sold''])] None = Inr ?eng"
    by code_simp
  have n: "?n \<noteq> []" by code_simp
  have ex: "map_of (exact_lookup ?eng) ?n = None" by code_simp
  have nv: "?n = ''sales, sales, sales''" by code_simp
  have km: "keyword_map ?eng = [(''411'', [''sales'', ''sold''])]" by simp
  have f: "map (\<lambda>(code, keywords). (code, filter (\<lambda>kw. str_contains kw ''sales, sales, sales'') keywords))
             [(''411'', [''sales'', ''sold''])] = [(''411'', [''sales''])]"
    by code_simp
  have c: "classify ascii_lower ascii_isspace ?eng ''Sales, sales, SALES''
     = Inr \<lparr>subject_code = ''411'', confidence = 67 / 162, matched_keywords = [''sales'']\<rparr>"
    by code_simp
  from scan_records_each_entry_once [OF i n ex] c
  have "\<exists>kws. (''411'', kws) \<in> set (keyword_map ?eng)
         \<and> (\<forall>kw. count_list [''sales''] kw \<le> count_list kws kw)
         \<and> (distinct kws \<longrightarrow> distinct [''sales''])"
    by auto
  then have cnt: "\<exists>kws. (''411'', kws) \<in> set [(''411'', [''sales'', ''sold''])]
         \<and> count_list [''sales''] ''sales'' \<le> count_list kws ''sales''
         \<and> distinct kws \<and> distinct [''sales'']"
    by auto
  from scan_records_each_entry_once [OF i n ex]
  have "scan_codes ?n (keyword_map ?eng)
            (dict_comprehension (map (\<lambda>(code, keywords). (code, [])) (keyword_map ?eng)))
          = Inr (map (\<lambda>(code, keywords). (code, filter (\<lambda>kw. str_contains kw ?n) keywords))
                  (keyword_map ?eng))"
    by (rule conjunct1)
  then have "scan_codes ''sales, sales, sales'' [(''411'', [''sales'', ''sold''])]
      (dict_comprehension (map (\<lambda>(code, keywords). (code, [])) [(''411'', [''sales'', ''sold''])]))
     = Inr [(''411'', [''sales''])]"
    by (simp only: nv km f)
  from this c cnt show ?thesis by blast
qed

text \<open>
  The keyword lists are Python lists and are not deduplicated, neither as given nor after
  lowercasing: \<^verbatim>\<open>"Sales"\<close> and \<^verbatim>\<open>"sales"\<close> are both stored as \<^verbatim>\<open>"sales"\<close>, and that
  keyword is then recorded twice.
\<close>

theorem duplicate_keyword_counterexample:
  "AccountClassifier_init ascii_lower [(''411'', [''Sales'', ''sales''])] None
     = Inr \<lparr>keyword_map = [(''411'', [''sales'', ''sales''])], exact_lookup = []\<rparr>
   \<and> classify ascii_lower ascii_isspace
        \<lparr>keyword_map = [(''411'', [''sales'', ''sales''])], exact_lookup = []\<rparr> ''sales''
     = Inr \<lparr>subject_code = ''411'', confidence = 2 / 3, matched_keywords = [''sales'', ''sales'']\<rparr>
   \<and> count_list [''sales'', ''sales''] ''sales'' = 2"
  by code_simp

subsection \<open>C5: the confidence of a keyword-scan decision\<close>

text \<open>
  Claim C5. For every constructed engine and every text whose normalized form is not empty, is
  no key of the exact lookup and contains some keyword of some code, \<^verbatim>\<open>classify\<close> returns
  a code of the keyword map with its matches, and the confidence is
  \<open>min (best_score / (best_score + 1)) 1\<close> for \<open>best_score\<close> = 0.6 times the number of matched
  keywords plus 0.4 times (the sum of their lengths divided by \<open>max (length normalized) 1\<close>).
  The quotient is strictly below \<open>1\<close>, so the clamp changes nothing. The arithmetic is that
  of the reals.
\<close>

theorem classify_keyword_confidence:
  fixes lower :: "'c list \<Rightarrow> 'c list" and isspace :: "'c \<Rightarrow> bool" and "text" :: "'c list"
    and n :: "'c list"
  defines "n \<equiv> str_strip isspace (lower text)"
  assumes init: "AccountClassifier_init lower km el = Inr eng"
    and n: "n \<noteq> []"
    and ex: "map_of (exact_lookup eng) n = None"
    and hit: "(code0, keywords0) \<in> set (keyword_map eng)" "kw0 \<in> set keywords0" "str_contains kw0 n"
  shows "\<exists>r best_score keywords.
       classify lower isspace eng text = Inr r
     \<and> (subject_code r, keywords) \<in> set (keyword_map eng)
     \<and> matched_keywords r = filter (\<lambda>kw. str_contains kw n) keywords
     \<and> best_score = 0.6 * real (length (matched_keywords r))
          + 0.4 * (real (sum_list (map length (matched_keywords r))) / real (max (length n) 1))
     \<and> confidence r = min (best_score / (best_score + 1)) 1
     \<and> best_score / (best_score + 1) < 1
     \<and> confidence r = best_score / (best_score + 1)"
proof -
  note d = init_distinct [OF init]
  from hit(2,3) have "filter (\<lambda>kw. str_contains kw n) keywords0 \<noteq> []"
    by (auto simp: filter_empty_conv)
  from classify_some_match [of eng isspace lower "text" n, OF d _ n ex hit(1) this]
  obtain code kws where k: "(code, kws) \<in> set (keyword_map eng)"
    and m: "filter (\<lambda>kw. str_contains kw n) kws \<noteq> []"
    and c: "classify lower isspace eng text =
       Inr \<lparr>subject_code = code,
            confidence = min (score_of (length n) (filter (\<lambda>kw. str_contains kw n) kws)
                / (score_of (length n) (filter (\<lambda>kw. str_contains kw n) kws) + 1)) 1,
            matched_keywords = filter (\<lambda>kw. str_contains kw n) kws\<rparr>"
    by (auto simp: n_def)
  let ?ms = "filter (\<lambda>kw. str_contains kw n) kws"
  let ?s = "score_of (length n) ?ms"
  have s: "?s = 0.6 * real (length ?ms)
          + 0.4 * (real (sum_list (map length ?ms)) / real (max (length n) 1))"
    by (simp only: score_of_def Let_def)
  have "0.6 \<le> ?s" using m by (rule score_of_ge)
  then have lt: "?s / (?s + 1) < 1" by (rule conf_bounds(2))
  then have mn: "min (?s / (?s + 1)) 1 = ?s / (?s + 1)" by simp
  show ?thesis
    apply (rule exI [of _ "\<lparr>subject_code = code, confidence = min (?s / (?s + 1)) 1, matched_keywords = ?ms\<rparr>"])
    apply (rule exI [of _ ?s])
    apply (rule exI [of _ kws])
    using k c s lt mn by simp
qed

theorem classify_keyword_confidence_witness:
  "\<exists>r best_score keywords.
       classify ascii_lower ascii_isspace
        \<lparr>keyword_map = [(''611'', [''train'', ''taxi'']), (''622'', [''wifi'', ''ntt''])],
         exact_lookup = [(''ntt'', ''611'')]\<rparr> ''Taxi to the NTT office'' = Inr r
     \<and> (subject_code r, keywords)
          \<in> set [(''611'', [''train'', ''taxi'']), (''622'', [''wifi'', ''ntt''])]
     \<and> matched_keywords r = filter (\<lambda>kw. str_contains kw ''taxi to the ntt office'') keywords
     \<and> best_score = 0.6 * real (length (matched_keywords r))
          + 0.4 * (real (sum_list (map length (matched_keywords r))) / real (max 22 1))
     \<and> confidence r = min (best_score / (best_score + 1)) 1
     \<and> best_score / (best_score + 1) < 1
     \<and> confidence r = best_score / (best_score + 1)"
proof -
  let ?eng = "\<lparr>keyword_map = [(''611'', [''train'', ''taxi'']), (''622'', [''wifi'', ''ntt''])],
         exact_lookup = [(''ntt'', ''611'')]\<rparr>"
  let ?n = "str_strip ascii_isspace (ascii_lower ''Taxi to the NTT office'')"
  have i: "AccountClassifier_init ascii_lower
      [(''611'', [''Train'', ''taxi'']), (''622'', [''wifi'', ''NTT''])] (Some [(''NTT'', ''611'')])
     = Inr ?eng"
    by code_simp
  have n: "?n \<noteq> []" by code_simp
  have ex: "map_of (exact_lookup ?eng) ?n = None" by code_simp
  have h1: "(''622'', [''wifi'', ''ntt'']) \<in> set (keyword_map ?eng)" by simp
  have h2: "''ntt'' \<in> set [''wifi'', ''ntt'']" by simp
  have h3: "str_contains ''ntt'' ?n" by code_simp
  have nv: "?n = ''taxi to the ntt office''" by code_simp
  have km: "keyword_map ?eng = [(''611'', [''train'', ''taxi'']), (''622'', [''wifi'', ''ntt''])]"
    by simp
  have len: "length ''taxi to the ntt office'' = 22" by simp
  from classify_keyword_confidence [OF i n ex h1 h2 h3]
  show ?thesis by (simp only: nv km len)
qed

subsection \<open>C6: no match gives UNCLASSIFIED\<close>

text \<open>
  Claim C6. For every constructed engine and every text whose normalized form is not empty, is
  not a key of the exact lookup and contains none of the engine's keywords as a substring,
  \<^verbatim>\<open>classify\<close> returns the code \<^verbatim>\<open>"UNCLASSIFIED"\<close>, confidence \<open>0\<close> and no matched
  keyword; it raises nothing.
\<close>

theorem classify_unclassified:
  assumes init: "AccountClassifier_init lower km el = Inr eng"
    and n: "str_strip isspace (lower text) \<noteq> []"
    and ex: "map_of (exact_lookup eng) (str_strip isspace (lower text)) = None"
    and no: "\<forall>(code, keywords) \<in> set (keyword_map eng).
               \<forall>kw \<in> set keywords. \<not> str_contains kw (str_strip isspace (lower text))"
  shows "classify lower isspace eng text =
     Inr \<lparr>subject_code = ''UNCLASSIFIED'', confidence = 0, matched_keywords = []\<rparr>"
proof -
  have "filter (\<lambda>kw. str_contains kw (str_strip isspace (lower text))) kws = []"
    if "(code, kws) \<in> set (keyword_map eng)" for code kws
    using no that by (auto simp: filter_empty_conv)
  with init_distinct [OF init] refl n ex show ?thesis
    by (rule classify_no_match)
qed

theorem classify_unclassified_witness:
  "classify ascii_lower ascii_isspace
        \<lparr>keyword_map = [(''611'', [''train'', ''taxi'']), (''622'', [''wifi'', ''ntt''])],
         exact_lookup = [(''ntt'', ''611'')]\<rparr> ''Unknown deal''
     = Inr \<lparr>subject_code = ''UNCLASSIFIED'', confidence = 0, matched_keywords = []\<rparr>"
proof -
  let ?eng = "\<lparr>keyword_map = [(''611'', [''train'', ''taxi'']), (''622'', [''wifi'', ''ntt''])],
         exact_lookup = [(''ntt'', ''611'')]\<rparr>"
  have i: "AccountClassifier_init ascii_lower
      [(''611'', [''Train'', ''taxi'']), (''622'', [''wifi'', ''NTT''])] (Some [(''NTT'', ''611'')])
     = Inr ?eng"
    by code_simp
  have n: "str_strip ascii_isspace (ascii_lower ''Unknown deal'') \<noteq> []" by code_simp
  have ex: "map_of (exact_lookup ?eng) (str_strip ascii_isspace (ascii_lower ''Unknown deal'')) = None"
    by code_simp
  have no: "\<forall>(code, keywords) \<in> set (keyword_map ?eng).
               \<forall>kw \<in> set keywords. \<not> str_contains kw (str_strip ascii_isspace (ascii_lower ''Unknown deal''))"
    by code_simp
  from classify_unclassified [OF i n ex no] show ?thesis .
qed

subsection \<open>C7: construction fails exactly on an empty keyword map\<close>

text \<open>
  Claim C7. \<^verbatim>\<open>__init__\<close> raises (the \<^verbatim>\<open>ValueError\<close> "keyword_map must not be
  empty") if and only if the keyword map is empty; for every non-empty keyword map it returns
  an engine, whatever the exact lookup is (absent, empty or not).
\<close>

theorem init_fails_iff_empty_keyword_map:
  "(AccountClassifier_init lower km el = Inl (ValueError ''keyword_map must not be empty'')) = (km = [])
   \<and> (\<exists>e. AccountClassifier_init lower km el = Inl e) = (km = [])
   \<and> (\<exists>eng. AccountClassifier_init lower km el = Inr eng) = (km \<noteq> [])"
  by (simp add: AccountClassifier_init_def)

subsection \<open>C8: classify fails exactly on blank input\<close>

text \<open>
  Claim C8. For every constructed engine, \<^verbatim>\<open>classify\<close> raises (the \<^verbatim>\<open>ValueError\<close>
  "text must not be empty", and nothing else) if and only if the lowercased and stripped
  text is empty, that is, if and only if the lowercased text consists of whitespace only
  (the empty text included); the engine after the call is the engine before it.
\<close>

theorem classify_invalid_input_iff:
  assumes init: "AccountClassifier_init lower km el = Inr eng"
  shows "(classify lower isspace eng text = Inl (ValueError ''text must not be empty''))
           = (str_strip isspace (lower text) = [])
   \<and> (\<exists>e. classify lower isspace eng text = Inl e) = (str_strip isspace (lower text) = [])
   \<and> (str_strip isspace (lower text) = []) = (\<forall>c \<in> set (lower text). isspace c)
   \<and> fst (classify_call lower isspace eng text) = eng"
proof -
  have a: "classify lower isspace eng text = Inl (ValueError ''text must not be empty'')"
    if "str_strip isspace (lower text) = []"
    using that by (simp add: classify_def)
  have b: "\<exists>r. classify lower isspace eng text = Inr r" if "str_strip isspace (lower text) \<noteq> []"
    using init_distinct [OF init] that by (rule classify_total)
  have 1: "(classify lower isspace eng text = Inl (ValueError ''text must not be empty''))
           = (str_strip isspace (lower text) = [])"
    using a b by (cases "str_strip isspace (lower text) = []") auto
  have 2: "(\<exists>e. classify lower isspace eng text = Inl e) = (str_strip isspace (lower text) = [])"
    using a b by (cases "str_strip isspace (lower text) = []") auto
  show ?thesis using 1 2 by (simp add: str_strip_Nil_iff classify_call_def)
qed

theorem classify_invalid_input_iff_witness:
  "AccountClassifier_init ascii_lower
      [(''611'', [''Train'', ''taxi'']), (''622'', [''wifi'', ''NTT''])] (Some [(''NTT'', ''611'')])
     = Inr \<lparr>keyword_map = [(''611'', [''train'', ''taxi'']), (''622'', [''wifi'', ''ntt''])],
            exact_lookup = [(''ntt'', ''611'')]\<rparr>
   \<and> classify ascii_lower ascii_isspace
        \<lparr>keyword_map = [(''611'', [''train'', ''taxi'']), (''622'', [''wifi'', ''ntt''])],
         exact_lookup = [(''ntt'', ''611'')]\<rparr> ''   ''
     = Inl (ValueError ''text must not be empty'')
   \<and> classify ascii_lower ascii_isspace
        \<lparr>keyword_map = [(''611'', [''train'', ''taxi'']), (''622'', [''wifi'', ''ntt''])],
         exact_lookup = [(''ntt'', ''611'')]\<rparr> '' x ''
     \<noteq> Inl (ValueError ''text must not be empty'')"
proof -
  let ?eng = "\<lparr>keyword_map = [(''611'', [''train'', ''taxi'']), (''622'', [''wifi'', ''ntt''])],
         exact_lookup = [(''ntt'', ''611'')]\<rparr>"
  have i: "AccountClassifier_init ascii_lower
      [(''611'', [''Train'', ''taxi'']), (''622'', [''wifi'', ''NTT''])] (Some [(''NTT'', ''611'')])
     = Inr ?eng"
    by code_simp
  have e: "str_strip ascii_isspace (ascii_lower ''   '') = []" by code_simp
  have x: "str_strip ascii_isspace (ascii_lower '' x '') \<noteq> []" by code_simp
  from classify_invalid_input_iff [OF i, of ascii_isspace "''   ''"] e
  have 1: "classify ascii_lower ascii_isspace ?eng ''   '' = Inl (ValueError ''text must not be empty'')"
    by blast
  from classify_invalid_input_iff [OF i, of ascii_isspace "'' x ''"] x
  have 2: "classify ascii_lower ascii_isspace ?eng '' x '' \<noteq> Inl (ValueError ''text must not be empty'')"
    by blast
  from i 1 2 show ?thesis by blast
qed

subsection \<open>C9: the confidence lies in the unit interval\<close>

text \<open>
  Claim C9. For every constructed engine and every text that is not empty after
  normalization, \<^verbatim>\<open>classify\<close> returns a result, and its confidence lies between \<open>0\<close> and
  \<open>1\<close> inclusive, on the exact-match branch, on the keyword-scan branch and on the
  fallback branch alike.
\<close>

theorem classify_confidence_bounds:
  assumes init: "AccountClassifier_init lower km el = Inr eng"
    and n: "str_strip isspace (lower text) \<noteq> []"
  shows "\<exists>r. classify lower isspace eng text = Inr r \<and> 0 \<le> confidence r \<and> confidence r \<le> 1"
proof (cases "map_of (exact_lookup eng) (str_strip isspace (lower text))")
  case (Some subject)
  with n show ?thesis by (simp add: classify_def Let_def)
next
  case None
  let ?n = "str_strip isspace (lower text)"
  note d = init_distinct [OF init]
  show ?thesis
  proof (cases "\<exists>code kws. (code, kws) \<in> set (keyword_map eng) \<and> filter (\<lambda>kw. str_contains kw ?n) kws \<noteq> []")
    case True
    then obtain code0 kws0 where "(code0, kws0) \<in> set (keyword_map eng)"
      "filter (\<lambda>kw. str_contains kw ?n) kws0 \<noteq> []" by blast
    from classify_some_match [of eng isspace lower "text", OF d refl n None this]
    obtain code kws where m: "filter (\<lambda>kw. str_contains kw ?n) kws \<noteq> []"
      and r: "classify lower isspace eng text =
       Inr \<lparr>subject_code = code,
            confidence = min (score_of (length ?n) (filter (\<lambda>kw. str_contains kw ?n) kws)
               / (score_of (length ?n) (filter (\<lambda>kw. str_contains kw ?n) kws) + 1)) 1,
            matched_keywords = filter (\<lambda>kw. str_contains kw ?n) kws\<rparr>"
      by blast
    have "0 \<le> score_of (length ?n) (filter (\<lambda>kw. str_contains kw ?n) kws)"
      using score_of_pos [OF m, of "length ?n"] by simp
    then show ?thesis using r by simp
  next
    case False
    then have "filter (\<lambda>kw. str_contains kw ?n) kws = []"
      if "(code, kws) \<in> set (keyword_map eng)" for code kws
      using that by blast
    with d refl n None have "classify lower isspace eng text =
       Inr \<lparr>subject_code = ''UNCLASSIFIED'', confidence = 0, matched_keywords = []\<rparr>"
      by (rule classify_no_match)
    then show ?thesis by simp
  qed
qed


theorem classify_confidence_bounds_witness:
  "\<exists>r. classify ascii_lower ascii_isspace
        \<lparr>keyword_map = [(''611'', [''train'', ''taxi'']), (''622'', [''wifi'', ''ntt''])],
         exact_lookup = [(''ntt'', ''611'')]\<rparr> ''Taxi to the NTT office'' = Inr r
     \<and> 0 \<le> confidence r \<and> confidence r \<le> 1"
proof -
  let ?eng = "\<lparr>keyword_map = [(''611'', [''train'', ''taxi'']), (''622'', [''wifi'', ''ntt''])],
         exact_lookup = [(''ntt'', ''611'')]\<rparr>"
  have i: "AccountClassifier_init ascii_lower
      [(''611'', [''Train'', ''taxi'']), (''622'', [''wifi'', ''NTT''])] (Some [(''NTT'', ''611'')])
     = Inr ?eng"
    by code_simp
  have n: "str_strip ascii_isspace (ascii_lower ''Taxi to the NTT office'') \<noteq> []" by code_simp
  from classify_confidence_bounds [OF i n] show ?thesis .
qed

subsection \<open>C10: no matched keyword exactly when the confidence is zero\<close>



end
